theory Spec2Isabelle
  imports Main "HOL-Library.Sublist"
begin

section \<open>Dataset normalisation and mixing of the instruction fine-tuning script\<close>

text \<open>
  The script \<^verbatim>\<open>sft-instruction-mpt-7b.py\<close> loads two instruction datasets, rewrites
  the second one (one free-text column \<^verbatim>\<open>text\<close>) into the \<^verbatim>\<open>prompt\<close>/\<^verbatim>\<open>response\<close>
  shape of the first, concatenates both and formats every example as one training string.
  This theory embeds lines 72 to 126 of the script: the extraction loop, the column
  operations, the concatenation and \<^verbatim>\<open>formatting_prompts_func\<close>.
\<close>

subsection \<open>Python strings, lists and exceptions\<close>

text \<open>The exceptions the embedded lines can raise.\<close>

datatype exn = IndexError | KeyError | ValueError

text \<open>
  \<^verbatim>\<open>s.find(sep)\<close>: the index of the first occurrence of \<open>sep\<close> in \<open>s\<close>, if any
  (Python returns \<open>-1\<close> where this returns \<open>None\<close>).
  A \<open>string\<close> here is a list of bytes, the UTF-8 form of the Python string. Both
  separators of the script are ASCII, and an ASCII byte never lies inside the encoding of
  another character, so occurrences and pieces are the same in both views.
\<close>

fun find_str :: "string \<Rightarrow> string \<Rightarrow> nat option" where
  "find_str sep [] = (if sep = [] then Some 0 else None)"
| "find_str sep (c # cs) =
     (if prefix sep (c # cs) then Some 0 else map_option Suc (find_str sep cs))"

text \<open>
  \<^verbatim>\<open>s.split(sep)\<close> for a non-empty separator: the string is cut at the first occurrence
  of \<open>sep\<close>, and the search goes on after that occurrence, so occurrences are taken left
  to right and do not overlap. A string without the separator is returned whole, as the
  only piece.
\<close>

function split_on :: "string \<Rightarrow> string \<Rightarrow> string list" where
  "split_on sep s =
     (case find_str sep s of
        None \<Rightarrow> [s]
      | Some i \<Rightarrow>
          if sep = [] then [s]
          else take i s # split_on sep (drop (i + length sep) s))"
  by pat_completeness auto

lemma find_str_bound: "find_str sep s = Some i \<Longrightarrow> i + length sep \<le> length s"
proof (induction s arbitrary: i)
  case Nil
  then show ?case by (simp split: if_splits)
next
  case (Cons c cs)
  show ?case
  proof (cases "prefix sep (c # cs)")
    case True
    with Cons.prems have "i = 0" by simp
    with prefix_length_le [OF True] show ?thesis by simp
  next
    case False
    with Cons.prems obtain j where "find_str sep cs = Some j" "i = Suc j" by auto
    with Cons.IH show ?thesis by fastforce
  qed
qed

termination split_on
proof (relation "measure (\<lambda>(sep, s). length s)")
  show "wf (measure (\<lambda>(sep, s). length s))" by simp
next
  fix sep s :: string and i :: nat
  assume found: "find_str sep s = Some i" and nonempty: "sep \<noteq> []"
  from find_str_bound [OF found] nonempty
  have "i + length sep \<le> length s" "0 < length sep"
    by simp_all
  then have "length s - (i + length sep) < length s"
    by arith
  then show "((sep, drop (i + length sep) s), (sep, s)) \<in> measure (\<lambda>(sep, s). length s)"
    by simp
qed

declare split_on.simps [simp del]

text \<open>\<^verbatim>\<open>s.split(sep)\<close> itself: an empty separator raises \<^verbatim>\<open>ValueError\<close>.\<close>

definition str_split :: "string \<Rightarrow> string \<Rightarrow> exn + string list" where
  "str_split s sep = (if sep = [] then Inl ValueError else Inr (split_on sep s))"

text \<open>\<^verbatim>\<open>xs[i]\<close> for a literal index \<open>i \<ge> 0\<close>: out of range raises \<^verbatim>\<open>IndexError\<close>.\<close>

definition index :: "'a list \<Rightarrow> nat \<Rightarrow> exn + 'a" where
  "index xs i = (if i < length xs then Inr (xs ! i) else Inl IndexError)"

subsection \<open>The extraction of one conversation (lines 76 to 85)\<close>

definition human_marker :: string where
  "human_marker = ''### Human: ''"

definition assistant_marker :: string where
  "assistant_marker = ''### Assistant: ''"

definition preamble :: string where
  "preamble = ''Below is an instruction that describes a task. Write a response that appropriately completes the request. ### Instruction: ''"

definition response_cue :: string where
  "response_cue = '' ### Response: ''"

text \<open>
  Lines 77 to 82:
  \<^verbatim>\<open>prompt = conversation.split("### Human: ")[1].split("### Assistant: ")[0]\<close>,
  then the template around it.
\<close>

definition extract_prompt :: "string \<Rightarrow> exn + string" where
  "extract_prompt conversation =
     (case str_split conversation human_marker of
        Inl e \<Rightarrow> Inl e
      | Inr parts \<Rightarrow>
          (case index parts 1 of
             Inl e \<Rightarrow> Inl e
           | Inr after_human \<Rightarrow>
               (case str_split after_human assistant_marker of
                  Inl e \<Rightarrow> Inl e
                | Inr pieces \<Rightarrow>
                    (case index pieces 0 of
                       Inl e \<Rightarrow> Inl e
                     | Inr body \<Rightarrow> Inr (preamble @ body @ response_cue)))))"

text \<open>
  Line 84:
  \<^verbatim>\<open>response = conversation.split("### Assistant: ")[1].split("### Human: ")[0]\<close>.
\<close>

definition extract_response :: "string \<Rightarrow> exn + string" where
  "extract_response conversation =
     (case str_split conversation assistant_marker of
        Inl e \<Rightarrow> Inl e
      | Inr parts \<Rightarrow>
          (case index parts 1 of
             Inl e \<Rightarrow> Inl e
           | Inr after_assistant \<Rightarrow>
               (case str_split after_assistant human_marker of
                  Inl e \<Rightarrow> Inl e
                | Inr pieces \<Rightarrow> index pieces 0)))"

text \<open>An example of the common shape: the two columns every later step reads.\<close>

record example =
  prompt :: string
  response :: string

text \<open>
  \<open>normalize\<close> is one pass of the loop body seen as a function of the conversation: the
  prompt is computed first, then the response, and the first exception ends the pass.
\<close>

definition normalize :: "string \<Rightarrow> exn + example" where
  "normalize conversation =
     (case extract_prompt conversation of
        Inl e \<Rightarrow> Inl e
      | Inr p \<Rightarrow>
          (case extract_response conversation of
             Inl e \<Rightarrow> Inl e
           | Inr r \<Rightarrow> Inr \<lparr>prompt = p, response = r\<rparr>))"

subsection \<open>The loop and its two accumulators (lines 72 to 85)\<close>

text \<open>
  A table is a list of column names and a list of rows; a row maps a column name to the
  string in that cell. A row read at a column it does not have raises \<^verbatim>\<open>KeyError\<close>.
\<close>

type_synonym row = "string \<rightharpoonup> string"

record dataset =
  column_names :: "string list"
  rows :: "row list"

text \<open>The global lists \<^verbatim>\<open>prompts\<close> and \<^verbatim>\<open>responses\<close>.\<close>

record accumulators =
  prompts :: "string list"
  responses :: "string list"

text \<open>
  The outcome of running statements on the accumulators: either they ran to the end, or an
  exception was raised; the lists are global, so what was appended before the raise stays.
\<close>

datatype outcome = Completed accumulators | Raised exn accumulators

definition loop_body :: "row \<Rightarrow> accumulators \<Rightarrow> outcome" where
  "loop_body r st =
     (case r ''text'' of
        None \<Rightarrow> Raised KeyError st
      | Some conversation \<Rightarrow>
          (case extract_prompt conversation of
             Inl e \<Rightarrow> Raised e st
           | Inr p \<Rightarrow>
               (let st1 = st\<lparr>prompts := prompts st @ [p]\<rparr> in
                case extract_response conversation of
                  Inl e \<Rightarrow> Raised e st1
                | Inr rsp \<Rightarrow> Completed (st1\<lparr>responses := responses st1 @ [rsp]\<rparr>))))"

fun extraction_loop :: "row list \<Rightarrow> accumulators \<Rightarrow> outcome" where
  "extraction_loop [] st = Completed st"
| "extraction_loop (r # rs) st =
     (case loop_body r st of
        Raised e st' \<Rightarrow> Raised e st'
      | Completed st' \<Rightarrow> extraction_loop rs st')"

subsection \<open>Column operations, concatenation and mixing (lines 87 to 108)\<close>

text \<open>
  \<^verbatim>\<open>add_column(name, column)\<close>: a name the table already has, or a column whose length is
  not the number of rows, is refused by the library with a \<^verbatim>\<open>ValueError\<close>.
\<close>

definition add_column :: "string \<Rightarrow> string list \<Rightarrow> dataset \<Rightarrow> exn + dataset" where
  "add_column name col ds =
     (if name \<in> set (column_names ds) \<or> length col \<noteq> length (rows ds) then Inl ValueError
      else Inr \<lparr>column_names = column_names ds @ [name],
                rows = map (\<lambda>(r, v). r(name \<mapsto> v)) (zip (rows ds) col)\<rparr>)"

text \<open>\<^verbatim>\<open>remove_columns(cols)\<close>: a name that is not a column raises \<^verbatim>\<open>ValueError\<close>.\<close>

definition remove_columns :: "string list \<Rightarrow> dataset \<Rightarrow> exn + dataset" where
  "remove_columns cols ds =
     (if \<not> set cols \<subseteq> set (column_names ds) then Inl ValueError
      else Inr \<lparr>column_names = filter (\<lambda>c. c \<notin> set cols) (column_names ds),
                rows = map (\<lambda>r. r |` (- set cols)) (rows ds)\<rparr>)"

text \<open>
  \<^verbatim>\<open>concatenate_datasets([a, b])\<close>: the rows of \<open>a\<close> followed by the rows of \<open>b\<close>. A column
  that only one of the two tables has is kept; the library fills its cells in the rows of
  the other table with nulls, which a row here shows as the absence of the key.
\<close>

definition concatenate_datasets :: "dataset \<Rightarrow> dataset \<Rightarrow> dataset" where
  "concatenate_datasets a b =
     \<lparr>column_names = column_names a @ filter (\<lambda>c. c \<notin> set (column_names a)) (column_names b),
      rows = rows a @ rows b\<rparr>"

text \<open>
  \<open>mix a b\<close> is lines 72 to 108 for the first table \<open>a\<close> (\<^verbatim>\<open>train_dataset\<close>) and the
  second table \<open>b\<close> (\<^verbatim>\<open>dataset_openassistant["train"]\<close>). Between the removal of the old
  columns and the concatenation, line 105 prints the first row of the second table,
  \<^verbatim>\<open>dataset_openassistant["train"][0]\<close>, which raises \<^verbatim>\<open>IndexError\<close> on a table without
  rows; the two other prints of lines 103 and 104 read no row. (Line 64, before these
  lines, reads the first row of the first table in the same way; \<open>mix\<close> takes the first
  table as line 72 finds it.)
\<close>

definition mix :: "dataset \<Rightarrow> dataset \<Rightarrow> exn + dataset" where
  "mix a b =
     (case extraction_loop (rows b) \<lparr>prompts = [], responses = []\<rparr> of
        Raised e st \<Rightarrow> Inl e
      | Completed st \<Rightarrow>
          (case add_column ''prompt'' (prompts st) b of
             Inl e \<Rightarrow> Inl e
           | Inr b1 \<Rightarrow>
               (case add_column ''response'' (responses st) b1 of
                  Inl e \<Rightarrow> Inl e
                | Inr b2 \<Rightarrow>
                    (case remove_columns
                            (filter (\<lambda>col. col \<notin> set [''prompt'', ''response''])
                               (column_names b2)) b2 of
                       Inl e \<Rightarrow> Inl e
                     | Inr b3 \<Rightarrow>
                         (case index (rows b3) 0 of
                            Inl e \<Rightarrow> Inl e
                          | Inr first_row \<Rightarrow> Inr (concatenate_datasets a b3))))))"

subsection \<open>Formatting (lines 121 to 126)\<close>

text \<open>
  \<^verbatim>\<open>formatting_prompts_func\<close> receives a batch, the columns \<^verbatim>\<open>prompt\<close> and
  \<^verbatim>\<open>response\<close> as two lists, and runs over the indices of the first.
\<close>

record batch =
  prompt_column :: "string list"
  response_column :: "string list"

fun format_from :: "nat \<Rightarrow> string list \<Rightarrow> string list \<Rightarrow> string list \<Rightarrow> exn + string list" where
  "format_from i [] rs instructions = Inr instructions"
| "format_from i (p # ps) rs instructions =
     (case index rs i of
        Inl e \<Rightarrow> Inl e
      | Inr r \<Rightarrow> format_from (Suc i) ps rs (instructions @ [p @ [CHR 0x0A] @ r]))"

definition formatting_prompts_func :: "batch \<Rightarrow> exn + string list" where
  "formatting_prompts_func b = format_from 0 (prompt_column b) (response_column b) []"

text \<open>The batch that holds a list of examples, column by column.\<close>

definition batch_of :: "example list \<Rightarrow> batch" where
  "batch_of es = \<lparr>prompt_column = map prompt es, response_column = map response es\<rparr>"

subsection \<open>Occurrences of the turn markers\<close>

text \<open>
  \<open>sublist m s\<close> says that \<open>m\<close> occurs in \<open>s\<close> (Python's \<^verbatim>\<open>m in s\<close>). A text is
  free of markers when neither turn marker occurs in it.
\<close>

definition marker_free :: "string \<Rightarrow> bool" where
  "marker_free t \<longleftrightarrow> \<not> sublist human_marker t \<and> \<not> sublist assistant_marker t"

text \<open>
  Two properties of separator literals that decide where \<open>split_on\<close> cuts. An unbordered
  literal cannot overlap a second occurrence of itself; two separated literals cannot
  overlap each other, whichever starts first.
\<close>

definition unbordered :: "string \<Rightarrow> bool" where
  "unbordered m \<longleftrightarrow> m \<noteq> [] \<and> (\<forall>k\<in>{1..<length m}. \<not> prefix (drop k m) m)"

definition separated :: "string \<Rightarrow> string \<Rightarrow> bool" where
  "separated m n \<longleftrightarrow>
     (\<forall>k\<in>{1..<length m}. \<not> prefix (drop k m) n \<and> \<not> prefix n (drop k m)) \<and>
     (\<forall>j\<in>{0..<length n}. \<not> prefix (drop j n) m \<and> \<not> prefix m (drop j n))"

text \<open>A well-formed table: every row has exactly the columns of the table.\<close>

definition table_ok :: "dataset \<Rightarrow> bool" where
  "table_ok ds \<longleftrightarrow> (\<forall>r\<in>set (rows ds). dom r = set (column_names ds))"

subsection \<open>Rows of the mixed table\<close>

text \<open>
  A row of the second table and the example its text is normalised to; and what the column
  operations make of such a row: the two new cells are added, then the cells of the named
  old columns are removed.
\<close>

definition normalized_row :: "row \<Rightarrow> example \<Rightarrow> bool" where
  "normalized_row r e \<longleftrightarrow>
     (case r ''text'' of None \<Rightarrow> False | Some conv \<Rightarrow> normalize conv = Inr e)"

definition converted :: "string list \<Rightarrow> row \<Rightarrow> example \<Rightarrow> row" where
  "converted cols r e =
     (r(''prompt'' \<mapsto> prompt e, ''response'' \<mapsto> response e)) |` (- set cols)"

text \<open>
  The second tables that can be mixed: there is a first row to print, every row has a text
  in which both markers occur, and the two new column names are not taken yet.
\<close>

definition extractable :: "row \<Rightarrow> bool" where
  "extractable r \<longleftrightarrow>
     (case r ''text'' of
        None \<Rightarrow> False
      | Some conv \<Rightarrow> sublist human_marker conv \<and> sublist assistant_marker conv)"

definition mixable :: "dataset \<Rightarrow> bool" where
  "mixable b \<longleftrightarrow>
     rows b \<noteq> [] \<and> list_all extractable (rows b) \<and>
     ''prompt'' \<notin> set (column_names b) \<and> ''response'' \<notin> set (column_names b)"

text \<open>The two columns of the common shape.\<close>

definition example_columns :: "string set" where
  "example_columns = {''prompt'', ''response''}"

text \<open>
  The tables of the example scenario: one example in the first table, one conversation of
  two human turns in the second; and the same first table with one more column.
\<close>

definition scenario_A :: dataset where
  "scenario_A = \<lparr>column_names = [''prompt'', ''response''],
                  rows = [[''prompt'' \<mapsto> ''P1'', ''response'' \<mapsto> ''R1'']]\<rparr>"

definition scenario_B :: dataset where
  "scenario_B = \<lparr>column_names = [''text''],
                  rows = [[''text'' \<mapsto> ''### Human: Q1 ### Assistant: A1 ### Human: Q2'']]\<rparr>"

definition scenario_mixed :: dataset where
  "scenario_mixed = \<lparr>column_names = [''prompt'', ''response''],
      rows = [[''prompt'' \<mapsto> ''P1'', ''response'' \<mapsto> ''R1''],
              [''prompt'' \<mapsto> preamble @ ''Q1  ### Response: '', ''response'' \<mapsto> ''A1 '']]\<rparr>"

definition tagged_A :: dataset where
  "tagged_A = \<lparr>column_names = [''prompt'', ''response'', ''source''],
                rows = [[''prompt'' \<mapsto> ''P1'', ''response'' \<mapsto> ''R1'', ''source'' \<mapsto> ''dolly'']]\<rparr>"

definition tagged_mixed :: dataset where
  "tagged_mixed = \<lparr>column_names = [''prompt'', ''response'', ''source''],
      rows = [[''prompt'' \<mapsto> ''P1'', ''response'' \<mapsto> ''R1'', ''source'' \<mapsto> ''dolly''],
              [''prompt'' \<mapsto> preamble @ ''Q1  ### Response: '', ''response'' \<mapsto> ''A1 '']]\<rparr>"

text \<open>Two tables of two rows each, and what mixing makes of them.\<close>

definition pair_A :: dataset where
  "pair_A = \<lparr>column_names = [''prompt'', ''response''],
              rows = [[''prompt'' \<mapsto> ''P1'', ''response'' \<mapsto> ''R1''],
                      [''prompt'' \<mapsto> ''P2'', ''response'' \<mapsto> ''R2'']]\<rparr>"

definition pair_B :: dataset where
  "pair_B = \<lparr>column_names = [''text''],
              rows = [[''text'' \<mapsto> ''### Human: Q1### Assistant: A1''],
                      [''text'' \<mapsto> ''### Human: Q2### Assistant: A2### Human: Q3'']]\<rparr>"

definition pair_mixed :: dataset where
  "pair_mixed = \<lparr>column_names = [''prompt'', ''response''],
      rows = [[''prompt'' \<mapsto> ''P1'', ''response'' \<mapsto> ''R1''],
              [''prompt'' \<mapsto> ''P2'', ''response'' \<mapsto> ''R2''],
              [''prompt'' \<mapsto> preamble @ ''Q1 ### Response: '', ''response'' \<mapsto> ''A1''],
              [''prompt'' \<mapsto> preamble @ ''Q2 ### Response: '', ''response'' \<mapsto> ''A2'']]\<rparr>"

section \<open>Properties\<close>

subsection \<open>Searching and splitting\<close>

lemma find_str_None_iff: "find_str sep s = None \<longleftrightarrow> \<not> sublist sep s"
  by (induction s) (auto simp: sublist_Cons_right)

lemma find_str_Some_take_drop:
  "find_str sep s = Some i \<Longrightarrow> s = take i s @ sep @ drop (i + length sep) s"
proof (induction s arbitrary: i)
  case Nil
  then show ?case by (simp split: if_splits)
next
  case (Cons c cs)
  show ?case
  proof (cases "prefix sep (c # cs)")
    case True
    with Cons.prems have "i = 0" by simp
    with True show ?thesis by (auto simp: prefix_def)
  next
    case False
    with Cons.prems obtain j where j: "find_str sep cs = Some j" "i = Suc j" by auto
    from Cons.IH [OF j(1)] j(2) show ?thesis by simp
  qed
qed

lemma find_str_first:
  "\<not> sublist sep (x @ butlast sep) \<Longrightarrow> find_str sep (x @ sep @ y) = Some (length x)"
proof (induction x)
  case Nil
  then have "sep \<noteq> []" by auto
  then show ?case by (cases sep) simp_all
next
  case (Cons c x)
  from Cons.prems have ne: "sep \<noteq> []" by auto
  have tail: "\<not> sublist sep (x @ butlast sep)"
    using Cons.prems by (auto simp: sublist_Cons_right)
  have "\<not> prefix sep ((c # x) @ sep @ y)"
  proof
    assume p: "prefix sep ((c # x) @ sep @ y)"
    have "length sep \<le> length ((c # x) @ butlast sep)" using ne by simp
    moreover have "(c # x) @ sep @ y = ((c # x) @ butlast sep) @ (last sep # y)"
      using ne by simp
    ultimately have "prefix sep ((c # x) @ butlast sep)"
      using p by (metis prefix_length_prefix prefixI)
    then show False using Cons.prems by auto
  qed
  with Cons.IH [OF tail] show ?case by simp
qed

lemma find_str_not_before:
  assumes "\<not> sublist sep (x @ take (length sep - 1) y)" "find_str sep (x @ y) = Some i"
  shows "length x \<le> i"
proof (rule ccontr)
  assume "\<not> length x \<le> i"
  then have lt: "i < length x" by simp
  let ?s = "x @ y"
  from find_str_Some_take_drop [OF assms(2)]
  have s: "?s = take i ?s @ sep @ drop (i + length sep) ?s" .
  from assms(1) have ne: "sep \<noteq> []" by auto
  have "prefix (take (i + length sep) ?s) (x @ take (length sep - 1) y)"
  proof -
    have "take (i + length sep) ?s = take (i + length sep) (x @ take (length sep - 1) y)"
      using lt ne by (simp add: min_def) 
    then show ?thesis by (metis take_is_prefix)
  qed
  moreover have "take (i + length sep) ?s = take i ?s @ sep"
  proof -
    have "length (take i ?s) = i" using lt by simp
    then show ?thesis using s
      by (metis append.assoc append_eq_conv_conj length_append)
  qed
  ultimately have "sublist sep (x @ take (length sep - 1) y)"
    by (metis prefix_def sublist_appendI append.assoc)
  with assms(1) show False by simp
qed

lemma split_on_absent: "\<not> sublist sep s \<Longrightarrow> split_on sep s = [s]"
  by (simp add: split_on.simps [of sep s] find_str_None_iff [symmetric])

lemma split_on_first:
  "\<not> sublist sep (x @ butlast sep) \<Longrightarrow> split_on sep (x @ sep @ y) = x # split_on sep y"
proof -
  assume a: "\<not> sublist sep (x @ butlast sep)"
  then have "sep \<noteq> []" by auto
  with find_str_first [OF a, of y] show ?thesis
    by (simp add: split_on.simps [of sep "x @ sep @ y"])
qed

lemma split_on_not_Nil: "split_on sep s \<noteq> []"
  by (simp add: split_on.simps [of sep s] split: option.split)

lemma split_on_present:
  "sep \<noteq> [] \<Longrightarrow> sublist sep s \<Longrightarrow> 2 \<le> length (split_on sep s)"
proof -
  assume ne: "sep \<noteq> []" and "sublist sep s"
  then obtain i where "find_str sep s = Some i"
    using find_str_None_iff [of sep s] by auto
  with ne have "split_on sep s = take i s # split_on sep (drop (i + length sep) s)"
    by (simp add: split_on.simps [of sep s])
  with split_on_not_Nil [of sep "drop (i + length sep) s"] show ?thesis
    by (cases "split_on sep (drop (i + length sep) s)") simp_all
qed

lemma split_on_hd_extends:
  assumes "\<not> sublist sep (x @ take (length sep - 1) y)"
  shows "\<exists>r. split_on sep (x @ y) ! 0 = x @ r"
proof (cases "find_str sep (x @ y)")
  case None
  then show ?thesis by (simp add: split_on.simps [of sep "x @ y"])
next
  case (Some i)
  from assms have ne: "sep \<noteq> []" by auto
  from find_str_not_before [OF assms Some] have "length x \<le> i" .
  then have "take i (x @ y) = x @ take (i - length x) y" by simp
  with Some ne show ?thesis by (simp add: split_on.simps [of sep "x @ y"])
qed


lemma separated_HA: "separated human_marker assistant_marker"
  unfolding separated_def human_marker_def assistant_marker_def by code_simp

lemma separated_AH: "separated assistant_marker human_marker"
  unfolding separated_def human_marker_def assistant_marker_def by code_simp

lemma unbordered_H: "unbordered human_marker"
  unfolding unbordered_def human_marker_def by code_simp

lemma unbordered_A: "unbordered assistant_marker"
  unfolding unbordered_def assistant_marker_def by code_simp

lemma straddle_cases:
  assumes "m = u @ v" "suffix u x" "prefix v y"
  shows "sublist m x \<or> sublist m y \<or>
         (\<exists>k\<in>{1..<length m}. suffix (take k m) x \<and> prefix (drop k m) y)"
proof (cases "u = [] \<or> v = []")
  case True
  with assms show ?thesis by auto
next
  case False
  with assms(1) have "length u \<in> {1..<length m}" by (cases u; cases v) simp_all
  moreover from assms have "suffix (take (length u) m) x" "prefix (drop (length u) m) y"
    by simp_all
  ultimately show ?thesis by blast
qed

lemma sublist_append_cases:
  assumes "sublist m (x @ y)"
  shows "sublist m x \<or> sublist m y \<or>
         (\<exists>k\<in>{1..<length m}. suffix (take k m) x \<and> prefix (drop k m) y)"
  using assms straddle_cases [of m _ _ x y] unfolding sublist_append by blast

lemma sublist_through:
  assumes sep: "separated m n" and sub: "sublist m (x @ n @ y)"
  shows "sublist m x \<or> sublist m y"
proof (rule ccontr)
  assume neg: "\<not> (sublist m x \<or> sublist m y)"
  then have m: "m \<noteq> []" by auto
  from sublist_append_cases [OF sub] neg consider
    (inner) "sublist m (n @ y)"
    | (left) k where "k \<in> {1..<length m}" "prefix (drop k m) (n @ y)"
    by blast
  then show False
  proof cases
    case left
    then have "prefix (drop k m) n \<or> prefix n (drop k m)"
      by (metis prefix_append prefixI)
    with left(1) sep show False unfolding separated_def by blast
  next
    case inner
    from sublist_append_cases [OF inner] neg consider
      (inside) "sublist m n"
      | (right) k where "k \<in> {1..<length m}" "suffix (take k m) n"
      by blast
    then show False
    proof cases
      case inside
      then obtain p s where n: "n = p @ m @ s" by (auto simp: sublist_def)
      with m have "length p \<in> {0..<length n}" by simp
      moreover from n have "prefix m (drop (length p) n)" by simp
      ultimately show False using sep unfolding separated_def by blast
    next
      case right
      then obtain p where n: "n = p @ take k m" by (auto simp: suffix_def)
      with right(1) have "length p \<in> {0..<length n}" by simp
      moreover from n have "prefix (drop (length p) n) m" by (simp add: take_is_prefix)
      ultimately show False using sep unfolding separated_def by blast
    qed
  qed
qed

lemma unbordered_first:
  assumes "unbordered m" "\<not> sublist m x"
  shows "\<not> sublist m (x @ butlast m)"
proof
  assume sub: "sublist m (x @ butlast m)"
  from assms(1) have m: "m \<noteq> []" by (simp add: unbordered_def)
  then have "\<not> sublist m (butlast m)"
    using sublist_length_le [of m "butlast m"] by (cases m) auto
  with sublist_append_cases [OF sub] assms(2)
  obtain k where k: "k \<in> {1..<length m}" "prefix (drop k m) (butlast m)"
    by blast
  have "prefix (butlast m) m" by (simp add: prefixeq_butlast)
  with k(2) have "prefix (drop k m) m" by (rule prefix_order.trans)
  with k(1) assms(1) show False unfolding unbordered_def by blast
qed


lemma markers_not_Nil: "human_marker \<noteq> []" "assistant_marker \<noteq> []"
  by (simp_all add: human_marker_def assistant_marker_def)

lemma length_markers: "length human_marker = 11" "length assistant_marker = 15"
  by (simp_all add: human_marker_def assistant_marker_def)

lemma str_split_markers:
  "str_split s human_marker = Inr (split_on human_marker s)"
  "str_split s assistant_marker = Inr (split_on assistant_marker s)"
  by (simp_all add: str_split_def markers_not_Nil)

lemma index_0: "xs \<noteq> [] \<Longrightarrow> index xs 0 = Inr (xs ! 0)"
  by (simp add: index_def)

lemma index_1_Cons: "index (x # y # ys) 1 = Inr y"
  by (simp add: index_def)

lemma index_1_short: "index [x] 1 = Inl IndexError"
  by (simp add: index_def)

lemma split_assistant_at_marker:
  assumes "\<not> sublist assistant_marker x"
  shows "split_on assistant_marker (x @ assistant_marker @ t) = x # split_on assistant_marker t"
  by (rule split_on_first [OF unbordered_first [OF unbordered_A assms]])

lemma split_human_at_marker:
  assumes "\<not> sublist human_marker x"
  shows "split_on human_marker (x @ human_marker @ t) = x # split_on human_marker t"
  by (rule split_on_first [OF unbordered_first [OF unbordered_H assms]])

lemma extract_prompt_first_pair:
  assumes pre: "marker_free pre" and q: "marker_free q"
  shows "extract_prompt (pre @ human_marker @ q @ assistant_marker @ t) =
         Inr (preamble @ q @ response_cue)"
proof -
  let ?H = human_marker and ?A = assistant_marker
  have "\<not> sublist ?H ((q @ ?A) @ take (length ?H - 1) t)"
  proof
    assume "sublist ?H ((q @ ?A) @ take (length ?H - 1) t)"
    then have "sublist ?H (q @ ?A @ take (length ?H - 1) t)" by simp
    from sublist_through [OF separated_HA this] q
    have "sublist ?H (take (length ?H - 1) t)" by (simp add: marker_free_def)
    from sublist_length_le [OF this] show False by (simp add: length_markers)
  qed
  from split_on_hd_extends [OF this] obtain r
    where r: "split_on ?H (q @ ?A @ t) ! 0 = q @ ?A @ r" by auto
  obtain w ws where ws: "split_on ?H (q @ ?A @ t) = w # ws"
    using split_on_not_Nil [of ?H "q @ ?A @ t"] by (cases "split_on ?H (q @ ?A @ t)") auto
  with r have w: "w = q @ ?A @ r" by simp
  from pre have "\<not> sublist ?H pre" by (simp add: marker_free_def)
  from split_human_at_marker [OF this, of "q @ ?A @ t"] ws w
  have parts: "split_on ?H (pre @ ?H @ q @ ?A @ t) = pre # (q @ ?A @ r) # ws"
    by simp
  from q have "\<not> sublist ?A q" by (simp add: marker_free_def)
  from split_assistant_at_marker [OF this, of r]
  have pieces: "split_on ?A (q @ ?A @ r) = q # split_on ?A r" .
  show ?thesis
    by (simp add: extract_prompt_def str_split_markers parts index_1_Cons pieces index_def)
qed

lemma split_assistant_conversation:
  assumes pre: "marker_free pre" and q: "marker_free q"
  shows "split_on assistant_marker (pre @ human_marker @ q @ assistant_marker @ t) =
         (pre @ human_marker @ q) # split_on assistant_marker t"
proof -
  let ?H = human_marker and ?A = assistant_marker
  have "\<not> sublist ?A (pre @ ?H @ q)"
  proof
    assume "sublist ?A (pre @ ?H @ q)"
    from sublist_through [OF separated_AH this] pre q show False
      by (simp add: marker_free_def)
  qed
  from split_assistant_at_marker [OF this, of t] show ?thesis by simp
qed

lemma extract_response_single:
  assumes pre: "marker_free pre" and q: "marker_free q" and a: "marker_free a"
  shows "extract_response (pre @ human_marker @ q @ assistant_marker @ a) = Inr a"
proof -
  from a have "split_on assistant_marker a = [a]" "split_on human_marker a = [a]"
    by (simp_all add: marker_free_def split_on_absent)
  with split_assistant_conversation [OF pre q, of a] show ?thesis
    by (simp add: extract_response_def str_split_markers index_def)
qed

lemma extract_response_first_pair:
  assumes pre: "marker_free pre" and q: "marker_free q" and a: "marker_free a"
  shows "extract_response
           (pre @ human_marker @ q @ assistant_marker @ a @ human_marker @ rest) = Inr a"
proof -
  let ?H = human_marker and ?A = assistant_marker
  let ?t = "a @ ?H @ rest"
  have "\<not> sublist ?A ((a @ ?H) @ take (length ?A - 1) rest)"
  proof
    assume "sublist ?A ((a @ ?H) @ take (length ?A - 1) rest)"
    then have "sublist ?A (a @ ?H @ take (length ?A - 1) rest)" by simp
    from sublist_through [OF separated_AH this] a
    have "sublist ?A (take (length ?A - 1) rest)" by (simp add: marker_free_def)
    from sublist_length_le [OF this] show False by (simp add: length_markers)
  qed
  from split_on_hd_extends [OF this] obtain r
    where r: "split_on ?A ?t ! 0 = a @ ?H @ r" by auto
  obtain w ws where ws: "split_on ?A ?t = w # ws"
    using split_on_not_Nil [of ?A ?t] by (cases "split_on ?A ?t") auto
  with r have w: "w = a @ ?H @ r" by simp
  have parts: "split_on ?A (pre @ ?H @ q @ ?A @ ?t) = (pre @ ?H @ q) # (a @ ?H @ r) # ws"
    using split_assistant_conversation [OF pre q, of ?t] ws w by simp
  from a have "\<not> sublist ?H a" by (simp add: marker_free_def)
  from split_human_at_marker [OF this, of r]
  have pieces: "split_on ?H (a @ ?H @ r) = a # split_on ?H r" .
  show ?thesis
    by (simp add: extract_response_def str_split_markers parts index_1_Cons pieces index_def)
qed

subsection \<open>The template around the instruction body\<close>

lemma cue_facts:
  "\<not> sublist human_marker response_cue" "\<not> sublist assistant_marker response_cue"
  "\<forall>k\<in>{1..<length human_marker}. prefix (drop k human_marker) response_cue \<longrightarrow> take k human_marker = butlast human_marker"
  "\<forall>k\<in>{1..<length assistant_marker}. prefix (drop k assistant_marker) response_cue \<longrightarrow> take k assistant_marker = butlast assistant_marker"
  unfolding human_marker_def assistant_marker_def response_cue_def by code_simp+

lemma cue_completes:
  "butlast human_marker @ take 1 response_cue = human_marker"
  "butlast assistant_marker @ take 1 response_cue = assistant_marker"
  unfolding human_marker_def assistant_marker_def response_cue_def by simp_all

lemma preamble_free:
  "\<not> sublist human_marker preamble" "\<not> sublist assistant_marker preamble"
  unfolding human_marker_def assistant_marker_def preamble_def by code_simp+

lemma preamble_end_human:
  "list_all (\<lambda>k. \<not> suffix (take k human_marker) preamble) [1..<length human_marker]"
  unfolding human_marker_def preamble_def by code_simp

lemma preamble_end_assistant:
  "list_all (\<lambda>k. \<not> suffix (take k assistant_marker) preamble) [1..<length assistant_marker]"
  unfolding assistant_marker_def preamble_def by code_simp

lemma preamble_end:
  "k \<in> {1..<length human_marker} \<Longrightarrow> \<not> suffix (take k human_marker) preamble"
  "k \<in> {1..<length assistant_marker} \<Longrightarrow> \<not> suffix (take k assistant_marker) preamble"
  using preamble_end_human preamble_end_assistant by (simp_all add: list_all_iff)

text \<open>
  Whether a marker occurs in the templated prompt: the template itself has none, and the
  only way to complete one is a body that ends with the marker less its final space, which
  the space at the start of the response cue then completes.
\<close>

lemma marker_in_prompt:
  assumes m: "m = human_marker \<or> m = assistant_marker" and q: "\<not> sublist m q"
  shows "sublist m (preamble @ q @ response_cue) \<longleftrightarrow> suffix (butlast m) q"
proof
  assume "suffix (butlast m) q"
  then obtain p where "q = p @ butlast m" by (auto simp: suffix_def)
  moreover have "response_cue = take 1 response_cue @ drop 1 response_cue" by simp
  ultimately have "preamble @ q @ response_cue =
      (preamble @ p) @ (butlast m @ take 1 response_cue) @ drop 1 response_cue"
    by (metis append.assoc)
  also have "butlast m @ take 1 response_cue = m" using m cue_completes by auto
  finally show "sublist m (preamble @ q @ response_cue)"
    by (metis sublist_appendI)
next
  assume sub: "sublist m (preamble @ q @ response_cue)"
  from m preamble_free have "\<not> sublist m preamble" by auto
  moreover from m preamble_end
  have "\<not> (\<exists>k\<in>{1..<length m}. suffix (take k m) preamble \<and> prefix (drop k m) (q @ response_cue))"
    by auto
  ultimately have "sublist m (q @ response_cue)"
    using sublist_append_cases [OF sub] by blast
  moreover from m cue_facts(1,2) have "\<not> sublist m response_cue" by auto
  ultimately obtain k where k: "k \<in> {1..<length m}" "suffix (take k m) q"
      "prefix (drop k m) response_cue"
    using sublist_append_cases [of m q response_cue] q by blast
  from m k(1,3) cue_facts(3,4) have "take k m = butlast m" by auto
  with k(2) show "suffix (butlast m) q" by simp
qed

subsection \<open>Conversations with one pair\<close>

lemma marker_free_Nil: "marker_free []"
  by (simp add: marker_free_def markers_not_Nil)

lemma marker_free_Q1: "marker_free ''Q1''"
  unfolding marker_free_def human_marker_def assistant_marker_def by code_simp

lemma marker_free_A1: "marker_free ''A1''"
  unfolding marker_free_def human_marker_def assistant_marker_def by code_simp

lemma marker_free_Q1_space: "marker_free ''Q1 ''"
  unfolding marker_free_def human_marker_def assistant_marker_def by code_simp

lemma marker_free_A1_space: "marker_free ''A1 ''"
  unfolding marker_free_def human_marker_def assistant_marker_def by code_simp

lemma marker_free_half: "marker_free ''### Human:''"
  unfolding marker_free_def human_marker_def assistant_marker_def by code_simp

text \<open>
  C1 (counterexample). The conversation \<^verbatim>\<open>### Human: ### Human:### Assistant: A1\<close> has
  one pair: the human text \<^verbatim>\<open>### Human:\<close> and the assistant text \<^verbatim>\<open>A1\<close>, both
  free of markers. The prompt built from it contains the human marker, completed by the
  space that starts the response cue.
\<close>

theorem normalize_single_pair_leftover:
  "marker_free ''### Human:'' \<and> marker_free ''A1'' \<and>
   normalize ''### Human: ### Human:### Assistant: A1'' =
     Inr \<lparr>prompt = preamble @ ''### Human: ### Response: '', response = ''A1''\<rparr> \<and>
   sublist ''### Human: '' (preamble @ ''### Human: ### Response: '')"
proof -
  have "normalize ''### Human: ### Human:### Assistant: A1'' =
     Inr \<lparr>prompt = preamble @ ''### Human: ### Response: '', response = ''A1''\<rparr>"
    by code_simp
  moreover have "sublist ''### Human: '' (preamble @ ''### Human: ### Response: '')"
    unfolding preamble_def by code_simp
  ultimately show ?thesis using marker_free_half marker_free_A1 by simp
qed

text \<open>
  C1 (as amended). For a conversation made of the human marker (after any text \<open>pre\<close>
  free of markers, usually none), a human text \<open>q\<close>, the assistant marker and an
  assistant text \<open>a\<close>, with \<open>q\<close> and \<open>a\<close> free of markers,
  \<open>normalize\<close> returns the example whose prompt is the preamble, then \<open>q\<close>, then the
  response cue, and whose response is \<open>a\<close>. The response contains no marker. The prompt
  contains no marker exactly when \<open>q\<close> does not end with a marker less its final space.
\<close>

theorem normalize_single_pair:
  assumes "marker_free pre" and "marker_free q" and "marker_free a"
  shows "\<exists>e. normalize (pre @ human_marker @ q @ assistant_marker @ a) = Inr e \<and>
           prompt e = preamble @ q @ response_cue \<and> response e = a \<and>
           marker_free (response e) \<and>
           (marker_free (prompt e) \<longleftrightarrow>
              \<not> suffix (butlast human_marker) q \<and> \<not> suffix (butlast assistant_marker) q)"
proof -
  let ?e = "\<lparr>prompt = preamble @ q @ response_cue, response = a\<rparr>"
  have "normalize (pre @ human_marker @ q @ assistant_marker @ a) = Inr ?e"
    using extract_prompt_first_pair [OF assms(1,2), of a] extract_response_single [OF assms]
    by (simp add: normalize_def)
  moreover have "marker_free (prompt ?e) \<longleftrightarrow>
      \<not> suffix (butlast human_marker) q \<and> \<not> suffix (butlast assistant_marker) q"
    using assms(2) marker_in_prompt [of human_marker q] marker_in_prompt [of assistant_marker q]
    by (simp add: marker_free_def)
  ultimately show ?thesis using assms(3) by simp
qed

theorem normalize_single_pair_witness:
  "\<exists>e. normalize ''### Human: Q1### Assistant: A1'' = Inr e \<and>
     prompt e = preamble @ ''Q1 ### Response: '' \<and> response e = ''A1'' \<and>
     marker_free (response e) \<and> marker_free (prompt e)"
proof -
  have "\<not> suffix (butlast human_marker) ''Q1''" "\<not> suffix (butlast assistant_marker) ''Q1''"
    unfolding human_marker_def assistant_marker_def by code_simp+
  with normalize_single_pair [OF marker_free_Nil marker_free_Q1 marker_free_A1]
  show ?thesis
    by (simp add: human_marker_def assistant_marker_def response_cue_def)
qed

subsection \<open>Conversations with more than one pair\<close>

text \<open>
  C4 (counterexample). A conversation of two pairs whose first human turn has no answer: the
  instruction body is cut at the second human marker, not at the first assistant marker,
  and the example returned, \<^verbatim>\<open>Q0\<close> with \<^verbatim>\<open>A1\<close>, is no pair of the conversation.
\<close>

theorem normalize_unanswered_turn:
  "normalize ''### Human: Q0### Human: Q1### Assistant: A1### Human: Q2### Assistant: A2'' =
   Inr \<lparr>prompt = preamble @ ''Q0 ### Response: '', response = ''A1''\<rparr>"
  by code_simp

text \<open>
  C4 (as amended). For a conversation in which the first human marker is followed by a
  human text \<open>q\<close>, the assistant marker, an assistant text \<open>a\<close> and a second human marker,
  where no marker occurs in \<open>q\<close>, in \<open>a\<close> or in the text \<open>pre\<close> before the first human
  marker, and whatever follows the second human marker, \<open>normalize\<close> returns the first
  pair only: the instruction body stops at the first assistant marker, the response stops
  at the next human marker, and the result does not depend on the rest.
\<close>

theorem normalize_first_pair_only:
  assumes "marker_free pre" and "marker_free q" and "marker_free a"
  shows "normalize (pre @ human_marker @ q @ assistant_marker @ a @ human_marker @ rest) =
         Inr \<lparr>prompt = preamble @ q @ response_cue, response = a\<rparr>"
  using extract_prompt_first_pair [OF assms(1,2), of "a @ human_marker @ rest"]
    extract_response_first_pair [OF assms, of rest]
  by (simp add: normalize_def)

theorem normalize_first_pair_only_witness:
  "normalize ''### Human: Q1 ### Assistant: A1 ### Human: Q2### Assistant: A2'' =
   Inr \<lparr>prompt = preamble @ ''Q1  ### Response: '', response = ''A1 ''\<rparr>"
  using normalize_first_pair_only [OF marker_free_Nil marker_free_Q1_space marker_free_A1_space,
      of "''Q2### Assistant: A2''"]
  by (simp add: human_marker_def assistant_marker_def response_cue_def)

subsection \<open>Conversations that lack a marker\<close>

lemma index_error: "index xs i = Inl e \<Longrightarrow> e = IndexError"
  by (simp add: index_def split: if_splits)

lemma extract_prompt_error: "extract_prompt conv = Inl e \<Longrightarrow> e = IndexError"
  by (auto simp: extract_prompt_def str_split_markers dest: index_error split: sum.splits)

lemma extract_response_error: "extract_response conv = Inl e \<Longrightarrow> e = IndexError"
  by (auto simp: extract_response_def str_split_markers dest: index_error split: sum.splits)

lemma extract_prompt_no_human:
  "\<not> sublist human_marker conv \<Longrightarrow> extract_prompt conv = Inl IndexError"
  by (simp add: extract_prompt_def str_split_markers split_on_absent index_def)

lemma extract_response_no_assistant:
  "\<not> sublist assistant_marker conv \<Longrightarrow> extract_response conv = Inl IndexError"
  by (simp add: extract_response_def str_split_markers split_on_absent index_def)

lemma index_1_present:
  "sep \<noteq> [] \<Longrightarrow> sublist sep s \<Longrightarrow> index (split_on sep s) 1 = Inr (split_on sep s ! 1)"
  using split_on_present [of sep s] by (simp add: index_def)

lemma extract_prompt_human:
  assumes "sublist human_marker conv"
  shows "extract_prompt conv =
    Inr (preamble @ split_on assistant_marker (split_on human_marker conv ! 1) ! 0 @ response_cue)"
  using index_1_present [OF markers_not_Nil(1) assms]
  by (simp add: extract_prompt_def str_split_markers index_0 split_on_not_Nil)

lemma extract_response_assistant:
  assumes "sublist assistant_marker conv"
  shows "extract_response conv =
    Inr (split_on human_marker (split_on assistant_marker conv ! 1) ! 0)"
  using index_1_present [OF markers_not_Nil(2) assms]
  by (simp add: extract_response_def str_split_markers index_0 split_on_not_Nil)

lemma normalize_present:
  assumes "sublist human_marker conv" "sublist assistant_marker conv"
  shows "\<exists>e. normalize conv = Inr e"
  using assms by (simp add: normalize_def extract_prompt_human extract_response_assistant)

text \<open>
  C2 (counterexample). A conversation without the assistant marker makes \<open>normalize\<close>
  fail with the list index fault itself.
\<close>

theorem normalize_no_assistant_index_fault:
  "\<not> sublist ''### Assistant: '' ''### Human: Q1'' \<and>
   normalize ''### Human: Q1'' = Inl IndexError"
  by code_simp

text \<open>
  C2 (as amended). When either turn marker does not occur in the conversation,
  \<open>normalize\<close> fails, and the failure is \<^verbatim>\<open>IndexError\<close>, the fault of reading the
  second piece of a split that has one piece; the code has no error condition of its own.
  When both markers occur, \<open>normalize\<close> returns an example.
\<close>

theorem normalize_marker_absent:
  "(\<not> sublist human_marker conv \<or> \<not> sublist assistant_marker conv \<longrightarrow>
      normalize conv = Inl IndexError) \<and>
   (sublist human_marker conv \<and> sublist assistant_marker conv \<longrightarrow>
      (\<exists>e. normalize conv = Inr e))"
proof (intro conjI impI)
  assume absent: "\<not> sublist human_marker conv \<or> \<not> sublist assistant_marker conv"
  show "normalize conv = Inl IndexError"
  proof (cases "sublist human_marker conv")
    case False
    then show ?thesis by (simp add: normalize_def extract_prompt_no_human)
  next
    case True
    with absent have "extract_response conv = Inl IndexError"
      by (simp add: extract_response_no_assistant)
    with extract_prompt_human [OF True] show ?thesis by (simp add: normalize_def)
  qed
next
  assume "sublist human_marker conv \<and> sublist assistant_marker conv"
  then show "\<exists>e. normalize conv = Inr e"
    by (simp add: normalize_def extract_prompt_human extract_response_assistant)
qed

theorem normalize_marker_absent_witness:
  "normalize ''### Human: Q1'' = Inl IndexError \<and>
   normalize ''Q1### Assistant: A1'' = Inl IndexError \<and>
   (\<exists>e. normalize ''### Human: Q1### Assistant: A1'' = Inr e)"
proof -
  have "\<not> sublist assistant_marker ''### Human: Q1''"
    "\<not> sublist human_marker ''Q1### Assistant: A1''"
    "sublist human_marker ''### Human: Q1### Assistant: A1''"
    "sublist assistant_marker ''### Human: Q1### Assistant: A1''"
    unfolding human_marker_def assistant_marker_def by code_simp+
  with normalize_marker_absent [of "''### Human: Q1''"]
    normalize_marker_absent [of "''Q1### Assistant: A1''"]
    normalize_marker_absent [of "''### Human: Q1### Assistant: A1''"]
  show ?thesis by blast
qed

subsection \<open>What every normalised example satisfies\<close>

text \<open>
  C9 (counterexample). A conversation whose assistant text is empty is normalised to an
  example with an empty response.
\<close>

theorem normalize_empty_response:
  "normalize ''### Human: Q1### Assistant: '' =
   Inr \<lparr>prompt = preamble @ ''Q1 ### Response: '', response = ''''\<rparr>"
  by code_simp

text \<open>
  C9 (as amended). Every example that \<open>normalize\<close> returns has a non-empty prompt that
  ends with the response cue. (Nothing is promised about the response being non-empty.)
\<close>

theorem normalize_prompt_invariant:
  assumes "normalize conv = Inr e"
  shows "prompt e \<noteq> [] \<and> suffix response_cue (prompt e)"
proof -
  from assms obtain body where "prompt e = preamble @ body @ response_cue"
    by (auto simp: normalize_def extract_prompt_def split: sum.splits)
  then show ?thesis by (simp add: suffix_def preamble_def)
qed

theorem normalize_prompt_invariant_witness:
  "normalize ''### Human: Q1### Assistant: A1'' =
     Inr \<lparr>prompt = preamble @ ''Q1 ### Response: '', response = ''A1''\<rparr> \<and>
   prompt \<lparr>prompt = preamble @ ''Q1 ### Response: '', response = ''A1''\<rparr> \<noteq> [] \<and>
   suffix response_cue (prompt \<lparr>prompt = preamble @ ''Q1 ### Response: '', response = ''A1''\<rparr>)"
proof -
  have n: "normalize ''### Human: Q1### Assistant: A1'' =
    Inr \<lparr>prompt = preamble @ ''Q1 ### Response: '', response = ''A1''\<rparr>"
    by code_simp
  from n normalize_prompt_invariant [OF n] show ?thesis by blast
qed

subsection \<open>The loop over the second table\<close>

lemma loop_body_Completed:
  assumes "loop_body r st = Completed st'"
  shows "\<exists>conv e. r ''text'' = Some conv \<and> normalize conv = Inr e \<and>
           prompts st' = prompts st @ [prompt e] \<and> responses st' = responses st @ [response e]"
  using assms
  by (auto simp: loop_body_def normalize_def Let_def split: option.splits sum.splits)

lemma loop_body_normalize:
  assumes "r ''text'' = Some conv" "normalize conv = Inr e"
  shows "loop_body r st =
         Completed (st\<lparr>prompts := prompts st @ [prompt e], responses := responses st @ [response e]\<rparr>)"
  using assms
  by (auto simp: loop_body_def normalize_def Let_def split: option.splits sum.splits)

lemma extraction_loop_append:
  "extraction_loop (xs @ ys) st =
     (case extraction_loop xs st of
        Raised e st' \<Rightarrow> Raised e st'
      | Completed st' \<Rightarrow> extraction_loop ys st')"
  by (induction xs arbitrary: st) (auto split: outcome.splits)

lemma extraction_loop_Completed:
  assumes "extraction_loop rs st = Completed st'"
  shows "\<exists>es. list_all2 normalized_row rs es \<and>
           prompts st' = prompts st @ map prompt es \<and>
           responses st' = responses st @ map response es"
  using assms
proof (induction rs arbitrary: st)
  case Nil
  then show ?case by simp
next
  case (Cons r rs)
  from Cons.prems obtain st1 where st1: "loop_body r st = Completed st1"
    and rest: "extraction_loop rs st1 = Completed st'"
    by (auto split: outcome.splits)
  from loop_body_Completed [OF st1] obtain conv e where
    e: "r ''text'' = Some conv" "normalize conv = Inr e"
       "prompts st1 = prompts st @ [prompt e]" "responses st1 = responses st @ [response e]"
    by blast
  from Cons.IH [OF rest] obtain es where
    es: "list_all2 normalized_row rs es"
        "prompts st' = prompts st1 @ map prompt es"
        "responses st' = responses st1 @ map response es"
    by blast
  have "list_all2 normalized_row (r # rs) (e # es)"
    using e(1,2) es(1) by (simp add: normalized_row_def)
  moreover have "prompts st' = prompts st @ map prompt (e # es)"
    "responses st' = responses st @ map response (e # es)"
    using e(3,4) es(2,3) by simp_all
  ultimately show ?case by blast
qed

lemma extraction_loop_lengths:
  assumes "extraction_loop rs st = Completed st'"
  shows "length (prompts st') = length (prompts st) + length rs"
    and "length (responses st') = length (responses st) + length rs"
proof -
  from extraction_loop_Completed [OF assms] obtain es where
    "list_all2 normalized_row rs es"
    "prompts st' = prompts st @ map prompt es"
    "responses st' = responses st @ map response es"
    by blast
  then show "length (prompts st') = length (prompts st) + length rs"
    and "length (responses st') = length (responses st) + length rs"
    by (auto dest: list_all2_lengthD)
qed

lemma extraction_loop_returns:
  assumes "\<And>r. r \<in> set rs \<Longrightarrow>
     \<exists>conv. r ''text'' = Some conv \<and> sublist human_marker conv \<and> sublist assistant_marker conv"
  shows "\<exists>st'. extraction_loop rs st = Completed st'"
  using assms
proof (induction rs arbitrary: st)
  case Nil
  then show ?case by simp
next
  case (Cons r rs)
  from Cons.prems [of r] obtain conv where
    conv: "r ''text'' = Some conv" "sublist human_marker conv" "sublist assistant_marker conv"
    by auto
  from normalize_present [OF conv(2,3)] obtain e where "normalize conv = Inr e" ..
  from loop_body_normalize [where r = r and conv = conv and st = st, OF conv(1) this] obtain st1
    where st1: "loop_body r st = Completed st1" by blast
  from Cons.IH [of st1] Cons.prems obtain st' where "extraction_loop rs st1 = Completed st'"
    by auto
  with st1 show ?case by simp
qed

text \<open>
  C10. When the rows before \<open>r\<close> were extracted and the text of \<open>r\<close> has the human
  marker but not the assistant marker, the loop raises \<^verbatim>\<open>IndexError\<close> at \<open>r\<close> with the
  prompt of \<open>r\<close> already appended and no response appended for it: at the raise the list
  of prompts is one longer than the list of responses.
\<close>

theorem extraction_failure_not_atomic:
  assumes earlier: "extraction_loop earlier \<lparr>prompts = [], responses = []\<rparr> = Completed st"
    and cell: "r ''text'' = Some conv"
    and human: "sublist human_marker conv"
    and no_assistant: "\<not> sublist assistant_marker conv"
  shows "\<exists>p st'. extraction_loop (earlier @ r # later) \<lparr>prompts = [], responses = []\<rparr> =
             Raised IndexError st' \<and>
           extract_prompt conv = Inr p \<and>
           prompts st' = prompts st @ [p] \<and> responses st' = responses st \<and>
           length (prompts st') = Suc (length (responses st'))"
proof -
  let ?p = "preamble @ split_on assistant_marker (split_on human_marker conv ! 1) ! 0 @ response_cue"
  let ?st' = "st\<lparr>prompts := prompts st @ [?p]\<rparr>"
  have p: "extract_prompt conv = Inr ?p" by (rule extract_prompt_human [OF human])
  have body: "loop_body r st = Raised IndexError ?st'"
    using cell p extract_response_no_assistant [OF no_assistant]
    by (simp add: loop_body_def)
  have "extraction_loop (earlier @ r # later) \<lparr>prompts = [], responses = []\<rparr> =
        Raised IndexError ?st'"
    using earlier body by (simp add: extraction_loop_append)
  moreover have "length (prompts st) = length (responses st)"
    using extraction_loop_lengths [OF earlier] by simp
  ultimately show ?thesis using p by auto
qed

theorem extraction_failure_not_atomic_witness:
  "\<exists>p st'. extraction_loop
       [[''text'' \<mapsto> ''### Human: Q1### Assistant: A1''], [''text'' \<mapsto> ''### Human: Q2'']]
       \<lparr>prompts = [], responses = []\<rparr> = Raised IndexError st' \<and>
     extract_prompt ''### Human: Q2'' = Inr p \<and>
     prompts st' = [preamble @ ''Q1 ### Response: '', p] \<and> responses st' = [''A1''] \<and>
     length (prompts st') = Suc (length (responses st'))"
proof -
  let ?r1 = "[''text'' \<mapsto> ''### Human: Q1### Assistant: A1'']"
  let ?r2 = "[''text'' \<mapsto> ''### Human: Q2'']"
  let ?st = "\<lparr>prompts = [preamble @ ''Q1 ### Response: ''], responses = [''A1'']\<rparr>"
  have n: "normalize ''### Human: Q1### Assistant: A1'' =
      Inr \<lparr>prompt = preamble @ ''Q1 ### Response: '', response = ''A1''\<rparr>"
    by code_simp
  have earlier: "extraction_loop [?r1] \<lparr>prompts = [], responses = []\<rparr> = Completed ?st"
    using loop_body_normalize [OF _ n, of ?r1 "\<lparr>prompts = [], responses = []\<rparr>"] by simp
  have cell: "?r2 ''text'' = Some ''### Human: Q2''" by simp
  have markers: "sublist human_marker ''### Human: Q2''"
    "\<not> sublist assistant_marker ''### Human: Q2''"
    unfolding human_marker_def assistant_marker_def by code_simp+
  from extraction_failure_not_atomic
    [where r = ?r2 and conv = "''### Human: Q2''" and later = "[]", OF earlier cell markers]
  show ?thesis by simp
qed

subsection \<open>What mixing returns\<close>

lemma add_column_Inr:
  assumes "add_column name col ds = Inr ds'"
  shows "name \<notin> set (column_names ds)" "length col = length (rows ds)"
    "column_names ds' = column_names ds @ [name]"
    "rows ds' = map (\<lambda>(r, v). r(name \<mapsto> v)) (zip (rows ds) col)"
  using assms by (auto simp: add_column_def split: if_splits)

lemma remove_columns_Inr:
  assumes "remove_columns cols ds = Inr ds'"
  shows "rows ds' = map (\<lambda>r. r |` (- set cols)) (rows ds)"
    "column_names ds' = filter (\<lambda>c. c \<notin> set cols) (column_names ds)"
  using assms by (auto simp: remove_columns_def split: if_splits)

lemma old_columns:
  assumes "''prompt'' \<notin> set cs" "''response'' \<notin> set cs"
  shows "filter (\<lambda>col. col \<notin> set [''prompt'', ''response'']) ((cs @ [''prompt'']) @ [''response'']) = cs"
  using assms by (induction cs) auto

lemma mix_Inr:
  assumes "mix a b = Inr d"
  shows "\<exists>es. list_all2 normalized_row (rows b) es \<and>
           rows d = rows a @ map2 (converted (column_names b)) (rows b) es \<and>
           ''prompt'' \<notin> set (column_names b) \<and> ''response'' \<notin> set (column_names b) \<and>
           rows b \<noteq> []"
proof -
  from assms obtain st b1 b2 b3 first_row where
    loop: "extraction_loop (rows b) \<lparr>prompts = [], responses = []\<rparr> = Completed st"
    and b1: "add_column ''prompt'' (prompts st) b = Inr b1"
    and b2: "add_column ''response'' (responses st) b1 = Inr b2"
    and b3: "remove_columns
               (filter (\<lambda>col. col \<notin> set [''prompt'', ''response'']) (column_names b2)) b2 = Inr b3"
    and first_row: "index (rows b3) 0 = Inr first_row"
    and d: "d = concatenate_datasets a b3"
    by (auto simp: mix_def split: outcome.splits sum.splits)
  from extraction_loop_Completed [OF loop] obtain es where
    es: "list_all2 normalized_row (rows b) es"
    and ps: "prompts st = map prompt es" and rs: "responses st = map response es"
    by auto
  from es have len: "length es = length (rows b)" by (auto dest: list_all2_lengthD)
  note c1 = add_column_Inr [OF b1] and c2 = add_column_Inr [OF b2]
  from c1(1) c2(1) c1(3) have fresh:
    "''prompt'' \<notin> set (column_names b)" "''response'' \<notin> set (column_names b)"
    by auto
  have cols: "filter (\<lambda>col. col \<notin> set [''prompt'', ''response'']) (column_names b2) =
      column_names b"
    using old_columns [OF fresh] c1(3) c2(3) by simp
  have b2_rows:
    "rows b2 = map2 (\<lambda>r e. r(''prompt'' \<mapsto> prompt e, ''response'' \<mapsto> response e)) (rows b) es"
    unfolding c2(4) c1(4) ps rs using len
    by (intro nth_equalityI) simp_all
  have b3_rows: "rows b3 = map (\<lambda>r. r |` (- set (column_names b))) (rows b2)"
    using remove_columns_Inr(1) [OF b3] unfolding cols .
  have b3_converted: "rows b3 = map2 (converted (column_names b)) (rows b) es"
    unfolding b3_rows b2_rows converted_def
    by (simp add: split_def o_def del: restrict_fun_upd)
  from first_row have "rows b3 \<noteq> []" by (auto simp: index_def split: if_splits)
  with b3_converted have nonempty: "rows b \<noteq> []" by auto
  from d b3_converted have "rows d = rows a @ map2 (converted (column_names b)) (rows b) es"
    by (simp add: concatenate_datasets_def)
  with es fresh nonempty show ?thesis by blast
qed

lemma normalize_Inr_markers:
  assumes "normalize conv = Inr e"
  shows "sublist human_marker conv \<and> sublist assistant_marker conv"
proof (rule ccontr)
  assume "\<not> (sublist human_marker conv \<and> sublist assistant_marker conv)"
  then consider "\<not> sublist human_marker conv" | "\<not> sublist assistant_marker conv" by blast
  then show False
  proof cases
    case 1
    from extract_prompt_no_human [OF this] assms show False by (simp add: normalize_def)
  next
    case 2
    from extract_response_no_assistant [OF this] assms show False
      by (simp add: normalize_def split: sum.splits)
  qed
qed

lemma normalized_row_extractable: "normalized_row r e \<Longrightarrow> extractable r"
  by (auto simp: normalized_row_def extractable_def dest: normalize_Inr_markers
      split: option.splits)

text \<open>
  Mixing returns a table exactly for the second tables that can be mixed.
\<close>

lemma mix_returns:
  assumes "mixable b"
  shows "\<exists>d. mix a b = Inr d"
proof -
  from assms have nonempty: "rows b \<noteq> []" and texts: "list_all extractable (rows b)"
    and fresh: "''prompt'' \<notin> set (column_names b)" "''response'' \<notin> set (column_names b)"
    by (simp_all add: mixable_def)
  have "\<exists>conv. r ''text'' = Some conv \<and> sublist human_marker conv \<and>
          sublist assistant_marker conv" if "r \<in> set (rows b)" for r
    using texts that by (auto simp: list_all_iff extractable_def split: option.splits)
  then have "\<exists>st. extraction_loop (rows b) \<lparr>prompts = [], responses = []\<rparr> = Completed st"
    by (rule extraction_loop_returns)
  then obtain st where
    loop: "extraction_loop (rows b) \<lparr>prompts = [], responses = []\<rparr> = Completed st" ..
  from extraction_loop_lengths [OF loop]
  have len: "length (prompts st) = length (rows b)" "length (responses st) = length (rows b)"
    by simp_all
  obtain b1 where b1: "add_column ''prompt'' (prompts st) b = Inr b1"
    using fresh(1) len(1) by (simp add: add_column_def)
  from add_column_Inr(3,4) [OF b1] len(1)
  have b1': "column_names b1 = column_names b @ [''prompt'']" "length (rows b1) = length (rows b)"
    by simp_all
  obtain b2 where b2: "add_column ''response'' (responses st) b1 = Inr b2"
    using fresh(2) len(2) b1' by (simp add: add_column_def)
  from add_column_Inr(4) [OF b2] len(2) b1'(2)
  have b2': "length (rows b2) = length (rows b)" by simp
  obtain b3 where b3: "remove_columns
      (filter (\<lambda>col. col \<notin> set [''prompt'', ''response'']) (column_names b2)) b2 = Inr b3"
    by (auto simp: remove_columns_def)
  from remove_columns_Inr(1) [OF b3] b2' nonempty have "rows b3 \<noteq> []" by auto
  then have first_row: "index (rows b3) 0 = Inr (rows b3 ! 0)" by (rule index_0)
  show ?thesis
    by (simp only: mix_def loop outcome.case b1 sum.case b2 b3 first_row) blast
qed

lemma mix_mixable:
  assumes "mix a b = Inr d"
  shows "mixable b"
proof -
  from mix_Inr [OF assms] obtain es where
    es: "list_all2 normalized_row (rows b) es"
    and rest: "''prompt'' \<notin> set (column_names b)" "''response'' \<notin> set (column_names b)"
      "rows b \<noteq> []"
    by blast
  have "extractable r" if "r \<in> set (rows b)" for r
  proof -
    from that obtain i where i: "i < length (rows b)" "r = rows b ! i"
      unfolding in_set_conv_nth by blast
    from list_all2_nthD [OF es i(1)] have "normalized_row (rows b ! i) (es ! i)" .
    with i(2) show ?thesis by (simp add: normalized_row_extractable)
  qed
  then have "list_all extractable (rows b)" by (simp add: list_all_iff)
  with rest show ?thesis by (simp add: mixable_def)
qed

lemma converted_fields:
  "converted cols r e ''prompt'' = (if ''prompt'' \<in> set cols then None else Some (prompt e))"
  "converted cols r e ''response'' = (if ''response'' \<in> set cols then None else Some (response e))"
  by (simp_all add: converted_def restrict_map_def)

lemma converted_dom:
  assumes "dom r = set cols" "''prompt'' \<notin> set cols" "''response'' \<notin> set cols"
  shows "dom (converted cols r e) = example_columns"
  using assms
  by (auto simp: converted_def restrict_map_def dom_def example_columns_def split: if_splits)

subsection \<open>The example scenario, evaluated\<close>

lemma scenario_normalize:
  "normalize ''### Human: Q1 ### Assistant: A1 ### Human: Q2'' =
   Inr \<lparr>prompt = preamble @ ''Q1  ### Response: '', response = ''A1 ''\<rparr>"
  by code_simp

lemma scenario_loop:
  "extraction_loop (rows scenario_B) \<lparr>prompts = [], responses = []\<rparr> =
   Completed \<lparr>prompts = [preamble @ ''Q1  ### Response: ''], responses = [''A1 '']\<rparr>"
  using loop_body_normalize [OF _ scenario_normalize,
      of "[''text'' \<mapsto> ''### Human: Q1 ### Assistant: A1 ### Human: Q2'']"
         "\<lparr>prompts = [], responses = []\<rparr>"]
  by (simp add: scenario_B_def)

lemma scenario_mix: "mix scenario_A scenario_B = Inr scenario_mixed"
  unfolding mix_def scenario_loop
  by (simp add: add_column_def remove_columns_def index_def
      concatenate_datasets_def scenario_A_def scenario_B_def scenario_mixed_def)

lemma pair_normalize:
  "normalize ''### Human: Q1### Assistant: A1'' =
   Inr \<lparr>prompt = preamble @ ''Q1 ### Response: '', response = ''A1''\<rparr>"
  "normalize ''### Human: Q2### Assistant: A2### Human: Q3'' =
   Inr \<lparr>prompt = preamble @ ''Q2 ### Response: '', response = ''A2''\<rparr>"
  by code_simp+

lemma pair_loop:
  "extraction_loop (rows pair_B) \<lparr>prompts = [], responses = []\<rparr> =
   Completed \<lparr>prompts = [preamble @ ''Q1 ### Response: '', preamble @ ''Q2 ### Response: ''],
              responses = [''A1'', ''A2'']\<rparr>"
  using loop_body_normalize [OF _ pair_normalize(1),
      of "[''text'' \<mapsto> ''### Human: Q1### Assistant: A1'']"
         "\<lparr>prompts = [], responses = []\<rparr>"]
    loop_body_normalize [OF _ pair_normalize(2),
      of "[''text'' \<mapsto> ''### Human: Q2### Assistant: A2### Human: Q3'']"
         "\<lparr>prompts = [preamble @ ''Q1 ### Response: ''], responses = [''A1'']\<rparr>"]
  by (simp add: pair_B_def)

lemma pair_mix: "mix pair_A pair_B = Inr pair_mixed"
  unfolding mix_def pair_loop
  by (simp add: add_column_def remove_columns_def index_def
      concatenate_datasets_def pair_A_def pair_B_def pair_mixed_def)

lemma pair_mixable: "mixable pair_B"
proof -
  have "sublist human_marker ''### Human: Q1### Assistant: A1''"
    "sublist assistant_marker ''### Human: Q1### Assistant: A1''"
    "sublist human_marker ''### Human: Q2### Assistant: A2### Human: Q3''"
    "sublist assistant_marker ''### Human: Q2### Assistant: A2### Human: Q3''"
    unfolding human_marker_def assistant_marker_def by code_simp+
  then show ?thesis by (simp add: mixable_def extractable_def pair_B_def)
qed

lemma scenario_tables: "table_ok scenario_A" "table_ok scenario_B" "table_ok tagged_A"
  by (auto simp: table_ok_def scenario_A_def scenario_B_def tagged_A_def)

subsection \<open>Count, order and fields of the mixed table\<close>

text \<open>
  C5. Mixing returns a table for every first table and every second table that can be
  mixed, and for no other second table (it raises); the table it returns has as many rows
  as the two tables together.
\<close>

theorem mix_length:
  "(mixable b \<longrightarrow> (\<exists>d. mix a b = Inr d)) \<and>
   (mix a b = Inr d \<longrightarrow>
      mixable b \<and> length (rows d) = length (rows a) + length (rows b))"
proof (intro conjI impI)
  assume "mixable b"
  then show "\<exists>d. mix a b = Inr d" by (rule mix_returns)
next
  assume "mix a b = Inr d"
  then show "mixable b" by (rule mix_mixable)
next
  assume "mix a b = Inr d"
  from mix_Inr [OF this] obtain es where
    "list_all2 normalized_row (rows b) es"
    "rows d = rows a @ map2 (converted (column_names b)) (rows b) es"
    by blast
  then show "length (rows d) = length (rows a) + length (rows b)"
    by (auto dest: list_all2_lengthD)
qed

theorem mix_length_witness:
  "mixable pair_B \<and> mix pair_A pair_B = Inr pair_mixed \<and>
   length (rows pair_A) = 2 \<and> length (rows pair_B) = 2 \<and> length (rows pair_mixed) = 4"
proof -
  from mix_length [of pair_B pair_A pair_mixed] pair_mixable
  have "\<exists>d. mix pair_A pair_B = Inr d" by (rule conjunct1 [THEN mp])
  from mix_length [of pair_B pair_A pair_mixed] pair_mix
  have "length (rows pair_mixed) = length (rows pair_A) + length (rows pair_B)"
    by (rule conjunct2 [THEN mp, THEN conjunct2])
  moreover have "length (rows pair_A) = 2" "length (rows pair_B) = 2"
    by (simp_all add: pair_A_def pair_B_def)
  ultimately have "length (rows pair_mixed) = 4" by simp
  with pair_mixable pair_mix \<open>length (rows pair_A) = 2\<close> \<open>length (rows pair_B) = 2\<close>
  show ?thesis by - (intro conjI, assumption+)
qed

text \<open>
  C6. Mixing returns a table for every second table that can be mixed. In the table it
  returns, the first rows are the rows of the first table, in their order, and the rows
  after them come from the rows of the second table, in their order: the row at position
  \<open>length (rows a) + i\<close> carries the prompt and the response that the \<open>i\<close>-th conversation
  is normalised to.
\<close>

theorem mix_order:
  "(mixable b \<longrightarrow> (\<exists>d. mix a b = Inr d)) \<and>
   (mix a b = Inr d \<longrightarrow>
      take (length (rows a)) (rows d) = rows a \<and>
      (\<exists>es. list_all2 normalized_row (rows b) es \<and>
            length es = length (rows b) \<and>
            (\<forall>i<length (rows b).
               (rows d ! (length (rows a) + i)) ''prompt'' = Some (prompt (es ! i)) \<and>
               (rows d ! (length (rows a) + i)) ''response'' = Some (response (es ! i)))))"
proof (intro conjI impI)
  assume "mixable b"
  then show "\<exists>d. mix a b = Inr d" by (rule mix_returns)
next
  assume mixed: "mix a b = Inr d"
  from mix_Inr [OF mixed] obtain es where
    "rows d = rows a @ map2 (converted (column_names b)) (rows b) es"
    by blast
  then show "take (length (rows a)) (rows d) = rows a" by simp
next
  assume mixed: "mix a b = Inr d"
  from mix_Inr [OF mixed] obtain es where
    es: "list_all2 normalized_row (rows b) es"
    and d: "rows d = rows a @ map2 (converted (column_names b)) (rows b) es"
    and fresh: "''prompt'' \<notin> set (column_names b)" "''response'' \<notin> set (column_names b)"
    by blast
  from es have len: "length es = length (rows b)" by (rule list_all2_lengthD [symmetric])
  have "(rows d ! (length (rows a) + i)) ''prompt'' = Some (prompt (es ! i)) \<and>
        (rows d ! (length (rows a) + i)) ''response'' = Some (response (es ! i))"
    if "i < length (rows b)" for i
    using that len fresh by (simp add: d nth_append converted_fields)
  with es len show "\<exists>es. list_all2 normalized_row (rows b) es \<and>
            length es = length (rows b) \<and>
            (\<forall>i<length (rows b).
               (rows d ! (length (rows a) + i)) ''prompt'' = Some (prompt (es ! i)) \<and>
               (rows d ! (length (rows a) + i)) ''response'' = Some (response (es ! i)))"
    by blast
qed

theorem mix_order_witness:
  "mixable pair_B \<and> mix pair_A pair_B = Inr pair_mixed \<and>
   take 2 (rows pair_mixed) = rows pair_A \<and>
   (rows pair_mixed ! 2) ''prompt'' = Some (preamble @ ''Q1 ### Response: '') \<and>
   (rows pair_mixed ! 2) ''response'' = Some ''A1'' \<and>
   (rows pair_mixed ! 3) ''prompt'' = Some (preamble @ ''Q2 ### Response: '') \<and>
   (rows pair_mixed ! 3) ''response'' = Some ''A2''"
proof -
  let ?e1 = "\<lparr>prompt = preamble @ ''Q1 ### Response: '', response = ''A1''\<rparr>"
  let ?e2 = "\<lparr>prompt = preamble @ ''Q2 ### Response: '', response = ''A2''\<rparr>"
  have lens: "length (rows pair_A) = 2" "length (rows pair_B) = 2"
    by (simp_all add: pair_A_def pair_B_def)
  from mix_order [of pair_B pair_A pair_mixed] pair_mix
  have ordered: "take (length (rows pair_A)) (rows pair_mixed) = rows pair_A \<and>
      (\<exists>es. list_all2 normalized_row (rows pair_B) es \<and>
            length es = length (rows pair_B) \<and>
            (\<forall>i<length (rows pair_B).
               (rows pair_mixed ! (length (rows pair_A) + i)) ''prompt'' =
                 Some (prompt (es ! i)) \<and>
               (rows pair_mixed ! (length (rows pair_A) + i)) ''response'' =
                 Some (response (es ! i))))"
    by (rule conjunct2 [THEN mp])
  then obtain es where es: "list_all2 normalized_row (rows pair_B) es"
    and cells: "\<And>i. i < 2 \<Longrightarrow>
       (rows pair_mixed ! (2 + i)) ''prompt'' = Some (prompt (es ! i)) \<and>
       (rows pair_mixed ! (2 + i)) ''response'' = Some (response (es ! i))"
    unfolding lens by blast
  from es obtain e1 e2 where es_eq: "es = [e1, e2]"
    and e1: "normalized_row [''text'' \<mapsto> ''### Human: Q1### Assistant: A1''] e1"
    and e2: "normalized_row [''text'' \<mapsto> ''### Human: Q2### Assistant: A2### Human: Q3''] e2"
    by (auto simp: pair_B_def list_all2_Cons1)
  from e1 pair_normalize(1) have "e1 = ?e1" by (simp add: normalized_row_def)
  moreover from e2 pair_normalize(2) have "e2 = ?e2" by (simp add: normalized_row_def)
  ultimately have es_val: "es ! 0 = ?e1" "es ! 1 = ?e2" using es_eq by simp_all
  from cells [of 0] cells [of 1] es_val
  have "(rows pair_mixed ! 2) ''prompt'' = Some (preamble @ ''Q1 ### Response: '')"
    "(rows pair_mixed ! 2) ''response'' = Some ''A1''"
    "(rows pair_mixed ! 3) ''prompt'' = Some (preamble @ ''Q2 ### Response: '')"
    "(rows pair_mixed ! 3) ''response'' = Some ''A2''"
    by simp_all
  moreover from ordered lens have "take 2 (rows pair_mixed) = rows pair_A" by simp
  ultimately show ?thesis using pair_mixable pair_mix by - (intro conjI, assumption+)
qed

text \<open>
  C8 (counterexample). A first table with a third column keeps it: the row that comes from
  the first table still has its \<^verbatim>\<open>source\<close> cell in the mixed table.
\<close>

theorem mix_keeps_extra_field:
  "table_ok tagged_A \<and> table_ok scenario_B \<and>
   mix tagged_A scenario_B = Inr tagged_mixed \<and>
   (rows tagged_mixed ! 0) ''source'' = Some ''dolly''"
proof -
  have "mix tagged_A scenario_B = Inr tagged_mixed"
    unfolding mix_def scenario_loop
    by (simp add: add_column_def remove_columns_def index_def
        concatenate_datasets_def tagged_A_def scenario_B_def tagged_mixed_def)
  moreover have "(rows tagged_mixed ! 0) ''source'' = Some ''dolly''"
    by (simp add: tagged_mixed_def)
  ultimately show ?thesis using scenario_tables by simp
qed

text \<open>
  C8 (as amended). Whenever mixing returns a table (the second table being well formed),
  the rows of the first table are in it unchanged, every row that comes from the second
  table has exactly the fields \<^verbatim>\<open>prompt\<close> and \<^verbatim>\<open>response\<close>, and so every row has exactly
  these two fields when the first table has exactly these two columns.
\<close>

theorem mix_fields:
  assumes "mix a b = Inr d" and "table_ok b"
  shows "(\<forall>i<length (rows a). rows d ! i = rows a ! i) \<and>
         (\<forall>i<length (rows b). dom (rows d ! (length (rows a) + i)) = example_columns) \<and>
         (table_ok a \<and> set (column_names a) = example_columns \<longrightarrow>
            (\<forall>r\<in>set (rows d). dom r = example_columns))"
proof -
  from mix_Inr [OF assms(1)] obtain es where
    es: "list_all2 normalized_row (rows b) es"
    and d: "rows d = rows a @ map2 (converted (column_names b)) (rows b) es"
    and fresh: "''prompt'' \<notin> set (column_names b)" "''response'' \<notin> set (column_names b)"
    by blast
  from es have len: "length es = length (rows b)" by (rule list_all2_lengthD [symmetric])
  have from_b: "dom (rows d ! (length (rows a) + i)) = example_columns"
    if "i < length (rows b)" for i
  proof -
    from that assms(2) have "dom (rows b ! i) = set (column_names b)"
      by (simp add: table_ok_def)
    from converted_dom [OF this fresh, of "es ! i"]
    have "dom (converted (column_names b) (rows b ! i) (es ! i)) = example_columns" .
    moreover have "rows d ! (length (rows a) + i) =
        converted (column_names b) (rows b ! i) (es ! i)"
      using that len unfolding d by (simp only: nth_append_length_plus) simp
    ultimately show ?thesis by simp
  qed
  have from_a: "rows d ! i = rows a ! i" if "i < length (rows a)" for i
    using that unfolding d by (simp only: nth_append if_True)
  have all: "dom r = example_columns"
    if a: "table_ok a" "set (column_names a) = example_columns" and r: "r \<in> set (rows d)"
    for r
  proof -
    from r obtain j where j: "j < length (rows d)" "r = rows d ! j"
      unfolding in_set_conv_nth by blast
    show ?thesis
    proof (cases "j < length (rows a)")
      case True
      then have "rows a ! j \<in> set (rows a)" by (rule nth_mem)
      with a(1) [unfolded table_ok_def] have "dom (rows a ! j) = set (column_names a)"
        by (rule bspec)
      with a(2) from_a [OF True] j(2) show ?thesis by simp
    next
      case False
      have "length (rows d) = length (rows a) + length (rows b)"
        unfolding d using len by simp
      with False j(1) have "j - length (rows a) < length (rows b)" by arith
      from from_b [OF this] False j(2) show ?thesis by simp
    qed
  qed
  show ?thesis
  proof (intro conjI allI impI ballI)
    fix i assume "i < length (rows a)"
    then show "rows d ! i = rows a ! i" by (rule from_a)
  next
    fix i assume "i < length (rows b)"
    then show "dom (rows d ! (length (rows a) + i)) = example_columns" by (rule from_b)
  next
    fix r assume "table_ok a \<and> set (column_names a) = example_columns" "r \<in> set (rows d)"
    then show "dom r = example_columns" using all by blast
  qed
qed

theorem mix_fields_witness:
  "mix scenario_A scenario_B = Inr scenario_mixed \<and> table_ok scenario_B \<and>
   table_ok scenario_A \<and> set (column_names scenario_A) = example_columns \<and>
   list_all (\<lambda>r. dom r = example_columns) (rows scenario_mixed)"
proof -
  have cols: "set (column_names scenario_A) = example_columns"
    by (simp add: scenario_A_def example_columns_def)
  from mix_fields [OF scenario_mix scenario_tables(2), THEN conjunct2, THEN conjunct2, THEN mp,
      OF conjI [OF scenario_tables(1) cols]]
  have "list_all (\<lambda>r. dom r = example_columns) (rows scenario_mixed)"
    by (rule list_all_iff [THEN iffD2])
  with scenario_mix scenario_tables(1,2) cols show ?thesis
    by - (intro conjI, assumption+)
qed

subsection \<open>Formatting\<close>

lemma format_from_zip:
  "length pre = i \<Longrightarrow> length ps = length rs \<Longrightarrow>
   format_from i ps (pre @ rs) acc = Inr (acc @ map2 (\<lambda>p r. p @ [CHR 0x0A] @ r) ps rs)"
proof (induction ps arbitrary: i pre rs acc)
  case Nil
  then show ?case by simp
next
  case (Cons p ps)
  then obtain r rs' where rs: "rs = r # rs'" by (cases rs) auto
  from Cons.prems(1) have "(pre @ r # rs') ! i = r"
    using nth_append_length [of pre r rs'] by simp
  with Cons.prems(1) rs have "index (pre @ rs) i = Inr r" by (simp add: index_def)
  moreover from Cons.IH [of "pre @ [r]" "Suc i" rs'] Cons.prems rs
  have "format_from (Suc i) ps (pre @ rs) (acc @ [p @ [CHR 0x0A] @ r]) =
      Inr ((acc @ [p @ [CHR 0x0A] @ r]) @ map2 (\<lambda>p r. p @ [CHR 0x0A] @ r) ps rs')"
    by simp
  ultimately show ?case using rs by simp
qed

text \<open>
  C7. The formatted text of an example is its prompt, one newline character, and its
  response, and nothing else; a batch of examples is formatted example by example.
\<close>

theorem formatting_prompts_func_examples:
  "formatting_prompts_func (batch_of [e]) = Inr [prompt e @ [CHR 0x0A] @ response e] \<and>
   formatting_prompts_func (batch_of es) = Inr (map (\<lambda>e. prompt e @ [CHR 0x0A] @ response e) es)"
proof -
  have joined: "map2 (\<lambda>p r. p @ [CHR 0x0A] @ r) (map prompt xs) (map response xs) =
      map (\<lambda>e. prompt e @ [CHR 0x0A] @ response e) xs" for xs :: "example list"
    by (induction xs) simp_all
  have "formatting_prompts_func (batch_of xs) =
      Inr (map (\<lambda>e. prompt e @ [CHR 0x0A] @ response e) xs)" for xs
    using format_from_zip [of "[]" 0 "map prompt xs" "map response xs" "[]"]
    unfolding joined by (simp add: formatting_prompts_func_def batch_of_def)
  from this [of "[e]"] this [of es] show ?thesis by simp
qed

subsection \<open>The example scenario\<close>

text \<open>
  C3 (counterexample). The prompt of the normalised conversation is not the template around
  \<^verbatim>\<open>Q1\<close> with one space before the response cue.
\<close>

theorem scenario_prompt_spacing:
  "normalize ''### Human: Q1 ### Assistant: A1 ### Human: Q2'' \<noteq>
   Inr \<lparr>prompt = preamble @ ''Q1 ### Response: '', response = ''A1 ''\<rparr>"
  unfolding scenario_normalize by simp

text \<open>
  C3 (as amended). In the scenario the instruction body is \<^verbatim>\<open>Q1\<close> with the space that
  follows it in the conversation, so that the prompt is the preamble, \<^verbatim>\<open>Q1\<close>, two spaces
  and \<^verbatim>\<open>### Response: \<close>; the response is \<^verbatim>\<open>A1\<close> with its space. The mixed table has
  two rows, the second row carries this prompt and response, and its formatted text
  starts with the preamble.
\<close>

theorem scenario_result:
  "normalize ''### Human: Q1 ### Assistant: A1 ### Human: Q2'' =
     Inr \<lparr>prompt = preamble @ ''Q1  ### Response: '', response = ''A1 ''\<rparr> \<and>
   mix scenario_A scenario_B = Inr scenario_mixed \<and>
   length (rows scenario_mixed) = 2 \<and>
   (rows scenario_mixed ! 1) ''prompt'' = Some (preamble @ ''Q1  ### Response: '') \<and>
   (rows scenario_mixed ! 1) ''response'' = Some ''A1 '' \<and>
   formatting_prompts_func
       \<lparr>prompt_column = [preamble @ ''Q1  ### Response: ''], response_column = [''A1 '']\<rparr> =
     Inr [preamble @ ''Q1  ### Response: '' @ [CHR 0x0A] @ ''A1 ''] \<and>
   prefix preamble (preamble @ ''Q1  ### Response: '' @ [CHR 0x0A] @ ''A1 '')"
  using scenario_normalize scenario_mix
  by (simp add: scenario_mixed_def formatting_prompts_func_def index_def)

end
